theory Spec2Isabelle
  imports
    Complex_Main
    "HOL-Library.Sublist"
    "HOL-Library.AList"
    "HOL-Library.FSet"
    "HOL-Library.Char_ord"
    "HOL-Library.List_Lexorder"
begin

section \<open>Embedding of the collector (\<^verbatim>\<open>get_usernames_get_info.py\<close>)\<close>

text \<open>
  Python strings are modelled as \<^typ>\<open>string\<close>; a character stands for a code point
  below 256, which is what the whitespace and lower-case tables below cover. Floats
  (timestamps, scores, the threshold) are modelled as \<^typ>\<open>real\<close>. The language model,
  the sentiment pipeline and the Reddit clients are external capabilities and enter every
  function as parameters; they are taken to return a value.
\<close>

subsection \<open>Configuration\<close>

definition BATCH_SIZE :: nat where
  "BATCH_SIZE = 50"

definition MAX_COMMENTS :: nat where
  "MAX_COMMENTS = 2000"

definition FT_THRESHOLD :: real where
  "FT_THRESHOLD = 7 / 10"

subsection \<open>Text utilities\<close>

text \<open>\<^verbatim>\<open>str.isspace\<close> and the regular expression class \<^verbatim>\<open>\s\<close> agree; below 256 they hold
  of the code points 9 to 13, 28 to 32, 133 and 160.\<close>

definition is_space :: "char \<Rightarrow> bool" where
  "is_space c = (of_char c \<in> {9, 10, 11, 12, 13, 28, 29, 30, 31, 32, 133, 160 :: nat})"

text \<open>The fixed part \<^verbatim>\<open>https?://\<close> of \<^verbatim>\<open>_URL_RE\<close>: the rest of the text after it, if it
  matches at the start of \<open>t\<close>.\<close>

definition match_scheme :: "string \<Rightarrow> string option" where
  "match_scheme t =
     (if take 4 t = ''http'' then
        (if take 4 (drop 4 t) = ''s://'' then Some (drop 8 t)
         else if take 3 (drop 4 t) = ''://'' then Some (drop 7 t)
         else None)
      else None)"

text \<open>A match of \<^verbatim>\<open>https?://\S+\<close> at the start of \<open>t\<close>: the scheme, then one or more
  non-space characters, as many as there are. The result is the text after the match.\<close>

definition url_match :: "string \<Rightarrow> string option" where
  "url_match t =
     (case match_scheme t of
        None \<Rightarrow> None
      | Some r \<Rightarrow>
          (case r of
             [] \<Rightarrow> None
           | d # ds \<Rightarrow> if is_space d then None else Some (dropWhile (\<lambda>x. \<not> is_space x) r)))"

text \<open>\<^verbatim>\<open>_URL_RE.sub("", text)\<close>: scanning from the left, every match is dropped and the scan
  goes on after it.\<close>

function url_sub :: "string \<Rightarrow> string" where
  "url_sub [] = []"
| "url_sub (c # cs) =
     (case url_match (c # cs) of
        Some r \<Rightarrow> url_sub r
      | None \<Rightarrow> c # url_sub cs)"
  by pat_completeness auto
termination
proof (relation "measure length")
  show "wf (measure length)" by simp
next
  fix c :: char and cs r :: string
  assume m: "url_match (c # cs) = Some r"
  then obtain q where q: "match_scheme (c # cs) = Some q"
    and r: "r = dropWhile (\<lambda>x. \<not> is_space x) q"
    by (auto simp: url_match_def split: option.splits list.splits if_splits)
  from q have "length q < length (c # cs)"
    by (auto simp: match_scheme_def split: if_splits)
  moreover have "length r \<le> length q"
    unfolding r by (rule length_dropWhile_le)
  ultimately show "(r, c # cs) \<in> measure length" by simp
next
  fix c :: char and cs :: string
  show "(cs, c # cs) \<in> measure length" by simp
qed

definition strip :: "string \<Rightarrow> string" where
  "strip t = rev (dropWhile is_space (rev (dropWhile is_space t)))"

definition replace_newlines :: "string \<Rightarrow> string" where
  "replace_newlines t = map (\<lambda>c. if c = CHR 0x0A then CHR '' '' else c) t"

definition clean_text :: "string \<Rightarrow> string" where
  "clean_text text = strip (replace_newlines (url_sub text))"

text \<open>\<^verbatim>\<open>str.lower\<close> on code points below 256: the ASCII capitals and the Latin-1 capitals
  (192 to 222 without the multiplication sign 215) move up by 32.\<close>

definition lower_char :: "char \<Rightarrow> char" where
  "lower_char c =
     (let n = of_char c :: nat
      in if (65 \<le> n \<and> n \<le> 90) \<or> (192 \<le> n \<and> n \<le> 222 \<and> n \<noteq> 215)
         then char_of (n + 32) else c)"

definition lower :: "string \<Rightarrow> string" where
  "lower t = map lower_char t"

text \<open>\<^verbatim>\<open>s.replace(old, "")\<close> for a non-empty \<open>old\<close>: the occurrences are removed from the
  left, without overlap.\<close>

function str_remove :: "string \<Rightarrow> string \<Rightarrow> string" where
  "str_remove old [] = []"
| "str_remove old (c # cs) =
     (if old \<noteq> [] \<and> prefix old (c # cs)
      then str_remove old (drop (length old) (c # cs))
      else c # str_remove old cs)"
  by pat_completeness auto
termination
  by (relation "measure (\<lambda>(old, t). length t)") auto

subsection \<open>Language detection and sentiment classification\<close>

text \<open>What \<^verbatim>\<open>ft_model.predict(cleaned, k=1)\<close> returns: a pair of labels and scores, or
  anything else.\<close>

datatype ft_result = FtPair "string list" "real list" | FtOther

type_synonym ft_model = "string \<Rightarrow> ft_result"

text \<open>What \<^verbatim>\<open>sent_pipe(text, return_all_scores=True)\<close> returns: one list of
  label and score entries for each input.\<close>

type_synonym sent_pipe = "string \<Rightarrow> (string \<times> real) list list"

definition detect_lang :: "ft_model \<Rightarrow> real \<Rightarrow> string \<Rightarrow> string" where
  "detect_lang ft threshold text =
     (let cleaned = lower (clean_text text)
      in if cleaned = [] then ''unknown''
         else (case ft cleaned of
                 FtOther \<Rightarrow> ''unknown''
               | FtPair labels scores \<Rightarrow>
                   (case labels of
                      [] \<Rightarrow> ''unknown''
                    | l # _ \<Rightarrow>
                        (case scores of
                           [] \<Rightarrow> ''unknown''
                         | s # _ \<Rightarrow>
                             (let iso = str_remove ''__label__'' l
                              in if s \<ge> threshold then iso else ''unknown'')))))"

text \<open>The result dictionary is an association list: \<^const>\<open>AList.update\<close> overwrites the
  value of a key that is there and appends a new key, as a Python dict does.\<close>

definition classify_sentiment :: "sent_pipe \<Rightarrow> string \<Rightarrow> (string \<times> real) list" where
  "classify_sentiment pipe text =
     (case pipe (take 512 text) of
        [] \<Rightarrow> []
      | scores # _ \<Rightarrow>
          fold (\<lambda>entry out. AList.update (lower (fst entry)) (snd entry) out) scores [])"

subsection \<open>Rows\<close>

text \<open>The values a row holds. A row is a Python dict with string keys, kept as an
  association list in the order the keys are written.\<close>

datatype cell = StrV string | IntV int | BoolV bool | DictV "(string \<times> real) list" | NoneV

type_synonym row = "(string \<times> cell) list"

text \<open>The fields of a PRAW comment that the collector reads.\<close>

record comment =
  body :: "string option"
  comment_id :: string
  subreddit :: string
  created_utc :: real
  score :: int

text \<open>\<^verbatim>\<open>int(x)\<close> on a float rounds towards zero.\<close>

definition py_int :: "real \<Rightarrow> int" where
  "py_int x = (if 0 \<le> x then \<lfloor>x\<rfloor> else \<lceil>x\<rceil>)"

subsection \<open>Core fetch-and-process\<close>

definition comment_row :: "ft_model \<Rightarrow> sent_pipe \<Rightarrow> string \<Rightarrow> comment \<Rightarrow> row" where
  "comment_row ft pipe username c =
     (let body = (case body c of None \<Rightarrow> '''' | Some b \<Rightarrow> b);
          clean_body = clean_text body;
          lang = detect_lang ft FT_THRESHOLD clean_body;
          sentiment = (if lang = ''en'' \<and> clean_body \<noteq> []
                       then DictV (classify_sentiment pipe clean_body) else NoneV)
      in [(''username'', StrV username),
          (''comment_id'', StrV (comment_id c)),
          (''subreddit'', StrV (subreddit c)),
          (''created_utc'', IntV (py_int (created_utc c))),
          (''score'', IntV (score c)),
          (''body_clean'', StrV clean_body),
          (''language'', StrV lang),
          (''sentiment'', sentiment)])"

text \<open>The loop of \<^verbatim>\<open>process_user_comments\<close>, with the list \<open>out\<close> it appends to.\<close>

fun process_loop :: "ft_model \<Rightarrow> sent_pipe \<Rightarrow> string \<Rightarrow> comment list \<Rightarrow> row list \<Rightarrow> row list" where
  "process_loop ft pipe username [] out = out"
| "process_loop ft pipe username (c # cs) out =
     process_loop ft pipe username cs (out @ [comment_row ft pipe username c])"

definition process_user_comments :: "ft_model \<Rightarrow> sent_pipe \<Rightarrow> string \<Rightarrow> comment list \<Rightarrow> row list" where
  "process_user_comments ft pipe username raw_comments =
     process_loop ft pipe username raw_comments []"

subsection \<open>Exceptions, clients, program state\<close>

text \<open>\<open>ResponseException\<close> is \<^verbatim>\<open>prawcore.exceptions.ResponseException\<close>, the one
  exception the batch collector catches; \<open>ApiException\<close> stands for any other exception
  raised by a call to the Reddit API.\<close>

datatype exn =
    IndexError
  | StopIteration
  | ValueError
  | KeyError string
  | ResponseException
  | ApiException
  | SystemExit int

text \<open>The profile attributes of a redditor.\<close>

record profile =
  p_created_utc :: real
  link_karma :: int
  comment_karma :: int
  is_mod :: "bool option"

text \<open>What a client answers for a user name. \<open>about\<close> is the lazily loaded profile,
  \<open>None\<close> when reading an attribute of it raises; \<open>comments_new\<close> is the listing of the
  user's comments, \<open>None\<close> when fetching it raises.\<close>

record redditor =
  about :: "profile option"
  comments_new :: "comment list option"

type_synonym client = "string \<Rightarrow> redditor"

text \<open>\<^verbatim>\<open>itertools.cycle\<close>: the elements still to come in this pass, and all of them.\<close>

type_synonym 'a cycle = "'a list \<times> 'a list"

definition cycle :: "'a list \<Rightarrow> 'a cycle" where
  "cycle xs = (xs, xs)"

definition cycle_next :: "'a cycle \<Rightarrow> ('a \<times> 'a cycle) option" where
  "cycle_next cy =
     (case fst cy of
        x # rest \<Rightarrow> Some (x, (rest, snd cy))
      | [] \<Rightarrow> (case snd cy of
                 [] \<Rightarrow> None
               | y # ys \<Rightarrow> Some (y, (ys, snd cy))))"

text \<open>\<^verbatim>\<open>enumerate(xs, start=1)\<close> and \<^verbatim>\<open>range(1, n + 1)\<close>.\<close>

definition enumerate1 :: "'a list \<Rightarrow> (int \<times> 'a) list" where
  "enumerate1 xs = zip (map int [1..<Suc (length xs)]) xs"

definition range1 :: "nat \<Rightarrow> int list" where
  "range1 n = map int [1..<Suc n]"

text \<open>The external world of one run: the clients built from the credentials file, the
  two models, the clock and the timestamp of the file names.\<close>

record env =
  reddit_clients :: "client list"
  ft_model :: ft_model
  sent_pipe :: sent_pipe
  now :: int
  timestamp :: string

text \<open>The module's mutable state: the set \<^verbatim>\<open>seen_users\<close>, the content of
  \<^verbatim>\<open>SEEN_USERS_FILE\<close> as the JSON list it holds (\<open>None\<close>: no file), the position of
  \<^verbatim>\<open>reddit_cycle\<close> and the files of \<^verbatim>\<open>DATA_DIR\<close> by name.\<close>

record state =
  seen_users :: "string fset"
  seen_file :: "string list option"
  reddit_cycle :: "(int \<times> client) cycle"
  data_dir :: "(string \<times> row list) list"

subsection \<open>Seen-users checkpoint\<close>

definition load_seen :: "string list option \<Rightarrow> string fset" where
  "load_seen file = (case file of Some names \<Rightarrow> fset_of_list names | None \<Rightarrow> {||})"

definition save_seen :: "state \<Rightarrow> state" where
  "save_seen st = st\<lparr>seen_file := Some (sorted_list_of_fset (seen_users st))\<rparr>"

definition init_state :: "env \<Rightarrow> string list option \<Rightarrow> (string \<times> row list) list \<Rightarrow> state" where
  "init_state e file dir =
     \<lparr>seen_users = load_seen file, seen_file = file,
      reddit_cycle = cycle (enumerate1 (reddit_clients e)), data_dir = dir\<rparr>"

definition save_parquet :: "env \<Rightarrow> row list \<Rightarrow> string \<Rightarrow> state \<Rightarrow> state" where
  "save_parquet e data pfx st =
     st\<lparr>data_dir := AList.update (pfx @ ''_'' @ timestamp e @ ''.parquet'') data (data_dir st)\<rparr>"

text \<open>\<^verbatim>\<open>xs[i]\<close>: a negative index counts from the end, an index out of range raises.\<close>

definition py_index :: "'a list \<Rightarrow> int \<Rightarrow> exn + 'a" where
  "py_index xs i =
     (if 0 \<le> i \<and> i < int (length xs) then Inr (xs ! nat i)
      else if i < 0 \<and> - int (length xs) \<le> i then Inr (xs ! nat (int (length xs) + i))
      else Inl IndexError)"

text \<open>A job returns \<open>Inr None\<close> (the fetch failed), \<open>Inr (Some (user_row, comment_rows))\<close>,
  or raises (\<open>Inl\<close>). The state is returned with it.\<close>

type_synonym job_result = "exn + (row \<times> row list) option"

definition fetch_user_job :: "env \<Rightarrow> state \<Rightarrow> int \<times> string \<Rightarrow> job_result \<times> state" where
  "fetch_user_job e st job =
     (case job of (idx, uname) \<Rightarrow>
        (case py_index (reddit_clients e) (idx - 1) of
           Inl ex \<Rightarrow> (Inl ex, st)
         | Inr client \<Rightarrow>
             (let u = client uname
              in case comments_new u of
                   None \<Rightarrow> (Inr None, st)
                 | Some listing \<Rightarrow>
                     (let raw_comments = take MAX_COMMENTS listing
                      in case about u of
                           None \<Rightarrow> (Inl ApiException, st)
                         | Some p \<Rightarrow>
                             (let user_row =
                                    [(''username'', StrV uname),
                                     (''created_utc'', IntV (py_int (p_created_utc p))),
                                     (''link_karma'', IntV (link_karma p)),
                                     (''comment_karma'', IntV (comment_karma p)),
                                     (''is_mod'', BoolV (case is_mod p of None \<Rightarrow> False | Some b \<Rightarrow> b)),
                                     (''fetched_at'', IntV (now e))];
                                  comment_rows =
                                    process_user_comments (ft_model e) (sent_pipe e) uname raw_comments;
                                  st1 = st\<lparr>seen_users := finsert uname (seen_users st)\<rparr>;
                                  st2 = save_seen st1
                              in (Inr (Some (user_row, comment_rows)), st2))))))"

subsection \<open>The comment stream\<close>

text \<open>What the stream \<^verbatim>\<open>subreddit("all").stream.comments(pause_after=-1)\<close> gives next: a
  comment, of which only the author's name is read (\<open>None\<close>: the comment has no author),
  the pause marker \<^verbatim>\<open>None\<close>, or an exception.\<close>

datatype event = Item "string option" | Pause | Raise exn

subsection \<open>Single-user mode\<close>

text \<open>The loop of \<^verbatim>\<open>run_single\<close> over the events the stream has delivered so far; the
  result is the exception that ended the loop, if any, and the state. The pause of
  \<^verbatim>\<open>SLEEP_SECONDS\<close> has no effect on the state.\<close>

fun single_loop :: "env \<Rightarrow> (int \<times> client) cycle \<Rightarrow> event list \<Rightarrow> state \<Rightarrow> exn option \<times> state" where
  "single_loop e single_cycle [] st = (None, st)"
| "single_loop e single_cycle (Pause # es) st = single_loop e single_cycle es st"
| "single_loop e single_cycle (Raise ex # es) st = (Some ex, st)"
| "single_loop e single_cycle (Item author # es) st =
     (case author of
        None \<Rightarrow> single_loop e single_cycle es st
      | Some uname \<Rightarrow>
          if uname |\<in>| seen_users st then single_loop e single_cycle es st
          else
            (case cycle_next single_cycle of
               None \<Rightarrow> (Some StopIteration, st)
             | Some (slot, cy) \<Rightarrow>
                 (let client_idx = fst slot;
                      client = snd slot;
                      st1 = save_seen (st\<lparr>seen_users := finsert uname (seen_users st)\<rparr>)
                  in case about (client uname) of
                       None \<Rightarrow> (Some ApiException, st1)
                     | Some p \<Rightarrow>
                         (let user_row =
                                [(''username'', StrV uname),
                                 (''created_utc'', IntV (py_int (p_created_utc p))),
                                 (''link_karma'', IntV (link_karma p)),
                                 (''comment_karma'', IntV (comment_karma p)),
                                 (''is_mod'', BoolV (case is_mod p of None \<Rightarrow> False | Some b \<Rightarrow> b)),
                                 (''trophy_count'', IntV 0),
                                 (''fetched_at'', IntV (now e)),
                                 (''client_idx'', IntV client_idx)];
                              st2 = save_parquet e [user_row] ''users'' st1
                          in case comments_new (client uname) of
                               None \<Rightarrow> (Some ApiException, st2)
                             | Some listing \<Rightarrow>
                                 (let raw = take MAX_COMMENTS listing;
                                      comment_rows =
                                        process_user_comments (ft_model e) (sent_pipe e) uname raw;
                                      st3 = save_parquet e comment_rows uname st2
                                  in single_loop e cy es st3)))))"

definition run_single :: "env \<Rightarrow> event list \<Rightarrow> state \<Rightarrow> exn option \<times> state" where
  "run_single e events st =
     (case py_index (reddit_clients e) 0 of
        Inl ex \<Rightarrow> (Some ex, st)
      | Inr _ \<Rightarrow> single_loop e (cycle (enumerate1 (reddit_clients e))) events st)"

subsection \<open>Batch mode\<close>

text \<open>The inner \<^verbatim>\<open>for\<close> loop of \<^verbatim>\<open>run_batch\<close> over one stream: \<open>Inr fresh\<close> when the loop
  is left (pause marker, batch full, \<open>ResponseException\<close> caught, no further event), \<open>Inl\<close>
  for an exception that is not caught. \<open>seen\<close> is \<^verbatim>\<open>seen_users\<close>, which no job changes
  while names are collected. The source tests \<^verbatim>\<open>c.author.name not in seen_users\<close> twice,
  the second time under the lock; both tests are in the condition.\<close>

fun stream_loop :: "nat \<Rightarrow> string fset \<Rightarrow> event list \<Rightarrow> string list \<Rightarrow> exn + string list" where
  "stream_loop B seen [] fresh = Inr fresh"
| "stream_loop B seen (Pause # es) fresh = Inr fresh"
| "stream_loop B seen (Raise ex # es) fresh =
     (if ex = ResponseException then Inr fresh else Inl ex)"
| "stream_loop B seen (Item author # es) fresh =
     (case author of
        None \<Rightarrow> stream_loop B seen es fresh
      | Some name \<Rightarrow>
          if name |\<notin>| seen \<and> name |\<notin>| seen then
            (let fresh1 = fresh @ [name]
             in if length fresh1 \<ge> B then Inr fresh1 else stream_loop B seen es fresh1)
          else stream_loop B seen es fresh)"

text \<open>The outer \<^verbatim>\<open>while len(fresh) < BATCH_SIZE\<close> loop. \<open>feed\<close> holds, for each stream that
  is opened, the events it delivers. The result is \<open>None\<close> while the batch is not full and
  the feed has nothing more: the collector is still waiting and has not returned.\<close>

fun collect_loop ::
  "nat \<Rightarrow> string fset \<Rightarrow> (int \<times> client) cycle \<Rightarrow> event list list \<Rightarrow> string list
   \<Rightarrow> ((exn + string list) \<times> (int \<times> client) cycle) option" where
  "collect_loop B seen cy [] fresh =
     (if length fresh < B then
        (case cycle_next cy of
           None \<Rightarrow> Some (Inl StopIteration, cy)
         | Some (slot, cy1) \<Rightarrow> None)
      else Some (Inr fresh, cy))"
| "collect_loop B seen cy (s # feed) fresh =
     (if length fresh < B then
        (case cycle_next cy of
           None \<Rightarrow> Some (Inl StopIteration, cy)
         | Some (slot, cy1) \<Rightarrow>
             (case stream_loop B seen s fresh of
                Inl ex \<Rightarrow> Some (Inl ex, cy1)
              | Inr fresh1 \<Rightarrow> collect_loop B seen cy1 feed fresh1))
      else Some (Inr fresh, cy))"

text \<open>\<^verbatim>\<open>zip(cycle(...), fresh)\<close>: \<^verbatim>\<open>zip\<close> stops when either side has no next element.\<close>

fun zip_cycle :: "'a cycle \<Rightarrow> 'b list \<Rightarrow> ('a \<times> 'b) list" where
  "zip_cycle cy [] = []"
| "zip_cycle cy (u # us) =
     (case cycle_next cy of
        None \<Rightarrow> []
      | Some (i, cy1) \<Rightarrow> (i, u) # zip_cycle cy1 us)"

definition build_jobs :: "nat \<Rightarrow> string list \<Rightarrow> (int \<times> string) list" where
  "build_jobs n fresh = zip_cycle (cycle (range1 n)) fresh"

text \<open>The worker pool runs every submitted job. The jobs are taken to run one after the
  other in the order of submission, each one as a whole: the interleaving of the worker
  threads is not modelled.\<close>

fun run_jobs :: "env \<Rightarrow> (int \<times> string) list \<Rightarrow> state \<Rightarrow> job_result list \<times> state" where
  "run_jobs e [] st = ([], st)"
| "run_jobs e (job # jobs) st =
     (case fetch_user_job e st job of
        (res, st1) \<Rightarrow> (case run_jobs e jobs st1 of (rs, st2) \<Rightarrow> (res # rs, st2)))"

text \<open>The loop over \<^verbatim>\<open>as_completed(futures)\<close>: \<^verbatim>\<open>fut.result()\<close> raises what the job
  raised.\<close>

fun collect_results :: "job_result list \<Rightarrow> row list \<Rightarrow> row list \<Rightarrow> exn + (row list \<times> row list)" where
  "collect_results [] all_users all_comments = Inr (all_users, all_comments)"
| "collect_results (fut # futs) all_users all_comments =
     (case fut of
        Inl ex \<Rightarrow> Inl ex
      | Inr None \<Rightarrow> collect_results futs all_users all_comments
      | Inr (Some res) \<Rightarrow>
          collect_results futs (all_users @ [fst res]) (all_comments @ snd res))"

text \<open>The futures in the order of completion; \<open>order\<close> lists the positions of the jobs
  in that order.\<close>

definition as_completed :: "nat list \<Rightarrow> 'a list \<Rightarrow> 'a list" where
  "as_completed order futures = map (\<lambda>i. futures ! i) (filter (\<lambda>i. i < length futures) order)"

function str_of_nat :: "nat \<Rightarrow> string" where
  "str_of_nat n =
     (if n < 10 then [char_of (48 + n)]
      else str_of_nat (n div 10) @ [char_of (48 + n mod 10)])"
  by pat_completeness auto
termination
  by (relation "measure id") auto

declare str_of_nat.simps [simp del]

text \<open>One call of \<^verbatim>\<open>run_batch\<close> with batch size \<open>B\<close>: \<open>None\<close> when the collector is still
  waiting for names, otherwise the exception that ended the call, if any, and the state.\<close>

definition run_batch ::
  "env \<Rightarrow> nat \<Rightarrow> event list list \<Rightarrow> nat list \<Rightarrow> state \<Rightarrow> (exn option \<times> state) option" where
  "run_batch e B feed order st =
     (case collect_loop B (seen_users st) (reddit_cycle st) feed [] of
        None \<Rightarrow> None
      | Some (Inl ex, cy) \<Rightarrow> Some (Some ex, st\<lparr>reddit_cycle := cy\<rparr>)
      | Some (Inr fresh, cy) \<Rightarrow>
          (let st0 = st\<lparr>reddit_cycle := cy\<rparr>;
               jobs = build_jobs (length (reddit_clients e)) fresh
           in if reddit_clients e = [] then Some (Some ValueError, st0)
              else
                (case run_jobs e jobs st0 of
                   (futures, st1) \<Rightarrow>
                     (case collect_results (as_completed order futures) [] [] of
                        Inl ex \<Rightarrow> Some (Some ex, st1)
                      | Inr (all_users, all_comments) \<Rightarrow>
                          (let st2 = save_parquet e all_users ''users'' st1;
                               st3 = save_parquet e all_comments
                                       (''batch_'' @ str_of_nat (length all_comments)) st2
                           in Some (None, st3))))))"

section \<open>Embedding of the merge script (\<^verbatim>\<open>helpers/mergin_all_files_deduplicated.py\<close>)\<close>

text \<open>A Parquet file written from a list of dicts has the keys of the first dict as
  columns; a frame is the list of its rows, and a cell that a row does not have is null.\<close>

definition frame_columns :: "row list \<Rightarrow> string list" where
  "frame_columns rs = (case rs of [] \<Rightarrow> [] | r # _ \<Rightarrow> map fst r)"

text \<open>\<^verbatim>\<open>pd.concat\<close>: the rows one frame after the other, the columns of all frames.\<close>

definition concat_columns :: "row list list \<Rightarrow> string list" where
  "concat_columns dfs = rev (remdups (rev (concat (map frame_columns dfs))))"

definition cell_of :: "row \<Rightarrow> string \<Rightarrow> cell" where
  "cell_of r col = (case map_of r col of None \<Rightarrow> NoneV | Some v \<Rightarrow> v)"

text \<open>\<^verbatim>\<open>drop_duplicates(subset=[col])\<close> keeps the first row of each value of the column;
  \<open>keys\<close> are the values met so far.\<close>

fun drop_dups :: "string \<Rightarrow> row list \<Rightarrow> cell list \<Rightarrow> row list" where
  "drop_dups col [] keys = []"
| "drop_dups col (r # rs) keys =
     (if cell_of r col \<in> set keys then drop_dups col rs keys
      else r # drop_dups col rs (cell_of r col # keys))"

definition drop_duplicates :: "string \<Rightarrow> string list \<Rightarrow> row list \<Rightarrow> exn + row list" where
  "drop_duplicates col cols rs =
     (if col \<in> set cols then Inr (drop_dups col rs []) else Inl (KeyError col))"

text \<open>The script, on the files of \<^verbatim>\<open>DATA_DIR\<close> in the order \<^verbatim>\<open>os.listdir\<close> gives them: the
  directory with the merged file written, or the exception.\<close>

definition mergin_all_files_deduplicated ::
  "(string \<times> row list) list \<Rightarrow> exn + (string \<times> row list) list" where
  "mergin_all_files_deduplicated dir =
     (let files = filter (\<lambda>f. suffix ''.parquet'' (fst f) \<and> fst f \<noteq> ''all_comments_merged.parquet'') dir
      in if files = [] then Inl (SystemExit 1)
         else
           (let dfs = map snd files
            in case drop_duplicates ''id'' (concat_columns dfs) (concat dfs) of
                 Inl ex \<Rightarrow> Inl ex
               | Inr df \<Rightarrow> Inr (AList.update ''all_comments_merged.parquet'' df dir)))"

section \<open>Auxiliary notions for the text utilities\<close>

text \<open>The words that \<^verbatim>\<open>_URL_RE\<close> needs at the start of a match: the scheme and one
  character that is not a space.\<close>

definition url_word :: "string \<Rightarrow> bool" where
  "url_word w \<longleftrightarrow> (\<exists>d. \<not> is_space d \<and> (w = ''https://'' @ [d] \<or> w = ''http://'' @ [d]))"

text \<open>No suffix of the text starts with a match.\<close>

fun no_url :: "string \<Rightarrow> bool" where
  "no_url [] = True"
| "no_url (c # cs) = (url_match (c # cs) = None \<and> no_url cs)"

section \<open>Example inputs\<close>

text \<open>A language model that answers English with confidence 0.9, a sentiment pipeline
  that returns the three labels of the CardiffNLP model, and two comments.\<close>

definition ft_en :: ft_model where
  "ft_en = (\<lambda>t. FtPair [''__label__en''] [9 / 10])"

definition pipe3 :: sent_pipe where
  "pipe3 = (\<lambda>t. [[(''negative'', 1 / 10), (''neutral'', 1 / 5), (''positive'', 7 / 10)]])"

definition c_love :: comment where
  "c_love = \<lparr>body = Some ''I love this'', comment_id = ''k1'', subreddit = ''aww'',
              created_utc = 5, score = 3\<rparr>"

definition c_empty :: comment where
  "c_empty = \<lparr>body = Some [], comment_id = ''k2'', subreddit = ''pics'',
               created_utc = 7, score = 1\<rparr>"

text \<open>A profile, and a client that answers for three kinds of user: for \<^verbatim>\<open>alice\<close> the
  comments arrive but reading the profile raises, for \<^verbatim>\<open>ghost\<close> fetching the comments
  raises, for every other name both arrive.\<close>

definition prof :: profile where
  "prof = \<lparr>p_created_utc = 1500000000, link_karma = 10, comment_karma = 20, is_mod = None\<rparr>"

definition api :: client where
  "api uname =
     (if uname = ''alice'' then \<lparr>about = None, comments_new = Some [c_love]\<rparr>
      else if uname = ''ghost'' then \<lparr>about = Some prof, comments_new = None\<rparr>
      else \<lparr>about = Some prof, comments_new = Some [c_love, c_empty]\<rparr>)"

definition env1 :: env where
  "env1 = \<lparr>reddit_clients = [api], ft_model = ft_en, sent_pipe = pipe3,
            now = 1700000000, timestamp = ''20250101T000000''\<rparr>"

text \<open>The state at startup with no checkpoint file and an empty data directory.\<close>

definition st0 :: state where
  "st0 = init_state env1 None []"

text \<open>What a job for \<^verbatim>\<open>bob\<close> returns, and the data directory after a batch of that one
  job.\<close>

definition bob_user_row :: row where
  "bob_user_row =
     [(''username'', StrV ''bob''), (''created_utc'', IntV 1500000000), (''link_karma'', IntV 10),
      (''comment_karma'', IntV 20), (''is_mod'', BoolV False), (''fetched_at'', IntV 1700000000)]"

definition bob_comment_rows :: "row list" where
  "bob_comment_rows = process_user_comments ft_en pipe3 ''bob'' [c_love, c_empty]"

definition bob_dir :: "(string \<times> row list) list" where
  "bob_dir = [(''users_20250101T000000.parquet'', [bob_user_row]),
              (''batch_2_20250101T000000.parquet'', bob_comment_rows)]"

section \<open>Properties of the text utilities\<close>

lemma match_scheme_iff:
  "match_scheme t = Some r \<longleftrightarrow> (t = ''https://'' @ r \<or> t = ''http://'' @ r)"
proof
  assume m: "match_scheme t = Some r"
  have "take 4 (drop 4 t) @ drop 4 (drop 4 t) = drop 4 t"
    by (rule append_take_drop_id)
  then have a8: "take 4 (drop 4 t) @ drop 8 t = drop 4 t" by simp
  have "take 3 (drop 4 t) @ drop 3 (drop 4 t) = drop 4 t"
    by (rule append_take_drop_id)
  then have a7: "take 3 (drop 4 t) @ drop 7 t = drop 4 t" by simp
  have a: "t = take 4 t @ take 4 (drop 4 t) @ drop 8 t"
    by (simp only: a8 append_take_drop_id)
  have b: "t = take 4 t @ take 3 (drop 4 t) @ drop 7 t"
    by (simp only: a7 append_take_drop_id)
  show "t = ''https://'' @ r \<or> t = ''http://'' @ r"
  proof (cases "take 4 (drop 4 t) = ''s://''")
    case True
    with m have "take 4 t = ''http''" "r = drop 8 t"
      by (auto simp: match_scheme_def split: if_splits)
    with True a show ?thesis by simp
  next
    case False
    with m have "take 4 t = ''http''" "take 3 (drop 4 t) = ''://''" "r = drop 7 t"
      by (auto simp: match_scheme_def split: if_splits)
    with b show ?thesis by simp
  qed
next
  assume "t = ''https://'' @ r \<or> t = ''http://'' @ r"
  then show "match_scheme t = Some r" by (auto simp: match_scheme_def)
qed

lemma url_match_iff: "url_match t \<noteq> None \<longleftrightarrow> (\<exists>w. url_word w \<and> prefix w t)"
proof
  assume "url_match t \<noteq> None"
  then obtain r d ds where m: "match_scheme t = Some r" and r: "r = d # ds" and d: "\<not> is_space d"
    by (auto simp: url_match_def split: option.splits list.splits if_splits)
  from m have "t = ''https://'' @ r \<or> t = ''http://'' @ r"
    by (simp only: match_scheme_iff)
  then have "prefix (''https://'' @ [d]) t \<or> prefix (''http://'' @ [d]) t"
    unfolding r by (auto simp: prefix_def)
  with d show "\<exists>w. url_word w \<and> prefix w t"
    unfolding url_word_def by blast
next
  assume "\<exists>w. url_word w \<and> prefix w t"
  then obtain d z where d: "\<not> is_space d"
    and t: "t = ''https://'' @ (d # z) \<or> t = ''http://'' @ (d # z)"
    unfolding url_word_def prefix_def by auto
  then have "match_scheme t = Some (d # z)"
    by (simp only: match_scheme_iff)
  with d show "url_match t \<noteq> None"
    by (simp add: url_match_def)
qed

lemma url_word_no_space: "url_word w \<Longrightarrow> c \<in> set w \<Longrightarrow> \<not> is_space c"
  by (auto simp: url_word_def is_space_def)

lemma is_space_blank: "is_space (CHR '' '')"
  by (simp add: is_space_def)

lemma url_word_nonempty: "url_word w \<Longrightarrow> w \<noteq> []"
  by (auto simp: url_word_def)

lemma prefix_takeWhile_all:
  "\<forall>c\<in>set w. P c \<Longrightarrow> prefix w t \<Longrightarrow> prefix w (takeWhile P t)"
  by (auto simp: prefix_def takeWhile_append2)

lemma url_match_space: "is_space c \<Longrightarrow> url_match (c # cs) = None"
proof (rule ccontr)
  assume c: "is_space c" and "url_match (c # cs) \<noteq> None"
  then obtain w where w: "url_word w" "prefix w (c # cs)"
    unfolding url_match_iff by blast
  then have "c \<in> set w"
    by (cases w) (auto simp: url_word_def)
  with w c show False by (auto dest: url_word_no_space)
qed

lemma dropWhile_not_head: "dropWhile (\<lambda>x. \<not> P x) xs = [] \<or> P (hd (dropWhile (\<lambda>x. \<not> P x) xs))"
  using hd_dropWhile[of "\<lambda>x. \<not> P x" xs] by blast

lemma url_match_result:
  assumes "url_match t = Some r"
  shows "r = [] \<or> is_space (hd r)"
proof -
  from assms obtain q where "r = dropWhile (\<lambda>x. \<not> is_space x) q"
    by (auto simp: url_match_def split: option.splits list.splits if_splits)
  then show ?thesis using dropWhile_not_head[of is_space q] by simp
qed

lemma url_sub_space_head: "t = [] \<or> is_space (hd t) \<Longrightarrow> takeWhile (\<lambda>x. \<not> is_space x) (url_sub t) = []"
  by (cases t) (auto simp: url_match_space)

lemma takeWhile_url_sub_prefix: "prefix (takeWhile (\<lambda>x. \<not> is_space x) (url_sub t)) t"
proof (induction t rule: url_sub.induct)
  case 1
  show ?case by simp
next
  case (2 c cs)
  show ?case
  proof (cases "url_match (c # cs)")
    case None
    with 2 show ?thesis by simp
  next
    case (Some r)
    then have "r = [] \<or> is_space (hd r)" by (rule url_match_result)
    then have "takeWhile (\<lambda>x. \<not> is_space x) (url_sub r) = []" by (rule url_sub_space_head)
    with Some show ?thesis by simp
  qed
qed

lemma url_sub_no_url: "no_url t \<Longrightarrow> url_sub t = t"
  by (induction t) auto

lemma url_match_cons_url_sub:
  assumes "url_match (c # url_sub cs) \<noteq> None"
  shows "url_match (c # cs) \<noteq> None"
proof -
  from assms obtain w where w: "url_word w" "prefix w (c # url_sub cs)"
    unfolding url_match_iff by blast
  let ?P = "\<lambda>x. \<not> is_space x"
  from w have "prefix w (takeWhile ?P (c # url_sub cs))"
    by (intro prefix_takeWhile_all) (auto dest: url_word_no_space)
  moreover have "prefix (takeWhile ?P (c # url_sub cs)) (c # cs)"
    using takeWhile_url_sub_prefix[of cs] by simp
  ultimately have "prefix w (c # cs)" by (rule prefix_order.trans)
  with w show ?thesis unfolding url_match_iff by blast
qed

lemma no_url_url_sub: "no_url (url_sub t)"
proof (induction t rule: url_sub.induct)
  case 1
  show ?case by simp
next
  case (2 c cs)
  show ?case
  proof (cases "url_match (c # cs)")
    case None
    then have "url_match (c # url_sub cs) = None"
      using url_match_cons_url_sub[of c cs] by blast
    with None 2 show ?thesis by simp
  next
    case (Some r)
    with 2 show ?thesis by simp
  qed
qed

lemma map_fix_eq:
  "map f xs = w \<Longrightarrow> \<forall>x. f x \<in> set w \<longrightarrow> f x = x \<Longrightarrow> xs = w"
  by (induction xs arbitrary: w) auto

lemma url_match_replace_newlines:
  assumes "url_match (replace_newlines t) \<noteq> None"
  shows "url_match t \<noteq> None"
proof -
  let ?f = "\<lambda>c. if c = CHR 0x0A then CHR '' '' else c"
  from assms obtain w where w: "url_word w" "prefix w (map ?f t)"
    unfolding url_match_iff replace_newlines_def by blast
  then have "map ?f (take (length w) t) = w"
    by (auto simp: prefix_def take_map[symmetric])
  moreover have "\<forall>x. ?f x \<in> set w \<longrightarrow> ?f x = x"
    using url_word_no_space[OF w(1)] is_space_blank by auto
  ultimately have "take (length w) t = w" by (rule map_fix_eq)
  then have "prefix w t" using take_is_prefix[of "length w" t] by simp
  with w show ?thesis unfolding url_match_iff by blast
qed

lemma no_url_replace_newlines: "no_url t \<Longrightarrow> no_url (replace_newlines t)"
proof (induction t)
  case Nil
  show ?case by (simp add: replace_newlines_def)
next
  case (Cons c cs)
  have "url_match (replace_newlines (c # cs)) = None"
  proof (rule ccontr)
    assume "url_match (replace_newlines (c # cs)) \<noteq> None"
    then have "url_match (c # cs) \<noteq> None" by (rule url_match_replace_newlines)
    with Cons.prems show False by simp
  qed
  moreover have "no_url (replace_newlines cs)"
    using Cons by simp
  ultimately show ?case by (simp add: replace_newlines_def)
qed

lemma no_url_dropWhile: "no_url t \<Longrightarrow> no_url (dropWhile P t)"
  by (induction t) auto

lemma no_url_append: "no_url (p @ z) \<Longrightarrow> no_url p"
proof (induction p)
  case Nil
  show ?case by simp
next
  case (Cons c p)
  have "url_match (c # p) = None"
  proof (rule ccontr)
    assume "url_match (c # p) \<noteq> None"
    then obtain w where "url_word w" "prefix w (c # p)"
      unfolding url_match_iff by blast
    then have "url_word w \<and> prefix w ((c # p) @ z)"
      using prefix_prefix[of w "c # p" z] by blast
    then have "url_match ((c # p) @ z) \<noteq> None"
      unfolding url_match_iff by blast
    with Cons.prems show False by simp
  qed
  with Cons show ?case by simp
qed

lemma rstrip_append: "rev (dropWhile P (rev t)) @ rev (takeWhile P (rev t)) = t"
proof -
  have "rev (dropWhile P (rev t)) @ rev (takeWhile P (rev t))
      = rev (takeWhile P (rev t) @ dropWhile P (rev t))"
    by (simp only: rev_append)
  also have "\<dots> = t"
    by (simp only: takeWhile_dropWhile_id rev_rev_ident)
  finally show ?thesis .
qed

lemma no_url_strip: "no_url t \<Longrightarrow> no_url (strip t)"
proof -
  assume "no_url t"
  then have "no_url (dropWhile is_space t)" by (rule no_url_dropWhile)
  then have "no_url (strip t @ rev (takeWhile is_space (rev (dropWhile is_space t))))"
    unfolding strip_def by (simp only: rstrip_append)
  then show ?thesis by (rule no_url_append)
qed

lemma strip_idem: "strip (strip t) = strip t"
proof -
  define y where "y = dropWhile is_space t"
  define z where "z = rev (dropWhile is_space (rev y))"
  have yz: "y = z @ rev (takeWhile is_space (rev y))"
    unfolding z_def by (simp only: rstrip_append)
  have hy: "y \<noteq> [] \<Longrightarrow> \<not> is_space (hd y)"
    unfolding y_def by (rule hd_dropWhile)
  have "dropWhile is_space z = z"
  proof (cases z)
    case Nil
    then show ?thesis by simp
  next
    case (Cons a as)
    from yz have "y = a # (as @ rev (takeWhile is_space (rev y)))"
      unfolding Cons by simp
    then have "hd y = a" "y \<noteq> []"
      by (metis list.sel(1), metis list.distinct(1))
    with hy have "\<not> is_space a" by simp
    with Cons show ?thesis by simp
  qed
  moreover have "rev (dropWhile is_space (rev z)) = z"
    unfolding z_def by simp
  ultimately show ?thesis
    unfolding strip_def y_def[symmetric] z_def[symmetric] by simp
qed

lemma set_strip: "set (strip t) \<subseteq> set t"
  unfolding strip_def by (auto dest!: set_dropWhileD)

lemma replace_newlines_id: "CHR 0x0A \<notin> set t \<Longrightarrow> replace_newlines t = t"
  unfolding replace_newlines_def by (induction t) auto

lemma no_newline_replace: "CHR 0x0A \<notin> set (replace_newlines t)"
  unfolding replace_newlines_def by auto

lemma no_url_clean_text: "no_url (clean_text t)"
  unfolding clean_text_def
  by (intro no_url_strip no_url_replace_newlines no_url_url_sub)

section \<open>Properties of the enrichment\<close>

lemma process_loop_map:
  "process_loop ft pipe username cs out = out @ map (comment_row ft pipe username) cs"
  by (induction cs arbitrary: out) simp_all

lemma process_user_comments_map:
  "process_user_comments ft pipe username raw = map (comment_row ft pipe username) raw"
  by (simp add: process_user_comments_def process_loop_map)

lemma map_of_fold_update:
  "map_of (fold (\<lambda>e out. AList.update (f e) (g e) out) xs acc)
     = map_of acc ++ map_of (rev (map (\<lambda>e. (f e, g e)) xs))"
proof (induction xs arbitrary: acc)
  case Nil
  show ?case by simp
next
  case (Cons x xs)
  show ?case
    by (simp add: Cons.IH update_conv' map_add_upd_left fun_eq_iff map_add_def split: option.splits)
qed

lemma classify_sentiment_map_of:
  "pipe (take 512 t) = scores # rest \<Longrightarrow>
   map_of (classify_sentiment pipe t) = map_of (rev (map (\<lambda>e. (lower (fst e), snd e)) scores))"
  by (simp add: classify_sentiment_def map_of_fold_update)

lemma classify_sentiment_keys:
  assumes "pipe (take 512 t) = scores # rest"
  shows "fst ` set (classify_sentiment pipe t) = (\<lambda>e. lower (fst e)) ` set scores"
proof -
  have "fst ` set (classify_sentiment pipe t) = dom (map_of (classify_sentiment pipe t))"
    by (simp add: dom_map_of_conv_image_fst)
  also have "\<dots> = dom (map_of (rev (map (\<lambda>e. (lower (fst e), snd e)) scores)))"
    by (simp only: classify_sentiment_map_of[of pipe t scores rest, OF assms])
  also have "\<dots> = (\<lambda>e. lower (fst e)) ` set scores"
    by (simp add: dom_map_of_conv_image_fst image_image)
  finally show ?thesis .
qed

lemma detect_lang_empty: "clean_text t = [] \<Longrightarrow> detect_lang ft th t = ''unknown''"
  by (simp add: detect_lang_def lower_def)

lemma comment_row_gate:
  "(map_of (comment_row ft pipe username c) ''sentiment'' \<noteq> Some NoneV)
    = (map_of (comment_row ft pipe username c) ''language'' = Some (StrV ''en'') \<and>
       map_of (comment_row ft pipe username c) ''body_clean'' \<noteq> Some (StrV ''''))"
  by (simp add: comment_row_def Let_def)

lemma comment_row_sentiment:
  "map_of (comment_row ft pipe username c) ''sentiment'' \<noteq> Some NoneV \<Longrightarrow>
   map_of (comment_row ft pipe username c) ''sentiment''
     = Some (DictV (classify_sentiment pipe (clean_text (case body c of None \<Rightarrow> [] | Some b \<Rightarrow> b))))"
  by (simp add: comment_row_def Let_def split: if_splits)

lemma clean_text_Nil: "clean_text [] = []"
  by (simp add: clean_text_def strip_def replace_newlines_def)

lemma comment_row_empty:
  "clean_text (case body c of None \<Rightarrow> [] | Some b \<Rightarrow> b) = [] \<Longrightarrow>
   map_of (comment_row ft pipe username c) ''language'' = Some (StrV ''unknown'') \<and>
   map_of (comment_row ft pipe username c) ''sentiment'' = Some NoneV"
  by (simp add: comment_row_def Let_def detect_lang_empty clean_text_Nil)

lemmas text_eval = clean_text_def strip_def replace_newlines_def url_match_def match_scheme_def is_space_def

lemma clean_text_love: "clean_text ''I love this'' = ''I love this''"
  by (simp add: text_eval)

lemma classify_sentiment_love: "classify_sentiment pipe3 ''I love this'' = [(''negative'', 1 / 10), (''neutral'', 1 / 5), (''positive'', 7 / 10)]"
  by (simp add: classify_sentiment_def pipe3_def lower_def lower_char_def Let_def)

lemma comment_row_username:
  "map_of (comment_row ft pipe username c) ''username'' = Some (StrV username)"
  by (simp add: comment_row_def Let_def)

lemma comment_row_comment_id:
  "map_of (comment_row ft pipe username c) ''comment_id'' = Some (StrV (comment_id c))"
  by (simp add: comment_row_def Let_def)

section \<open>Properties of the job list\<close>

lemma cycle_next_drop:
  assumes "j < length s"
  shows "cycle_next (drop j s, s) = Some (s ! j, (drop (Suc j) s, s))"
  using assms by (simp add: cycle_next_def Cons_nth_drop_Suc[symmetric])

lemma cycle_next_wrap:
  assumes "s \<noteq> []"
  shows "cycle_next ([], s) = Some (s ! 0, (drop (Suc 0) s, s))"
  using assms by (cases s) (simp_all add: cycle_next_def)

lemma zip_cycle_length:
  "s \<noteq> [] \<Longrightarrow> j \<le> length s \<Longrightarrow> length (zip_cycle (drop j s, s) us) = length us"
proof (induction us arbitrary: j)
  case Nil
  show ?case by simp
next
  case (Cons u us)
  show ?case
  proof (cases "j < length s")
    case True
    then have "Suc j \<le> length s" by simp
    with Cons.IH[OF Cons.prems(1) this] True show ?thesis
      by (simp add: cycle_next_drop)
  next
    case False
    with Cons.prems have j: "drop j s = []" by simp
    have "Suc 0 \<le> length s" using Cons.prems(1) by (cases s) simp_all
    with Cons.IH[OF Cons.prems(1) this] show ?thesis
      by (simp add: j cycle_next_wrap[OF Cons.prems(1)])
  qed
qed

lemma zip_cycle_nth:
  "s \<noteq> [] \<Longrightarrow> j \<le> length s \<Longrightarrow> k < length us \<Longrightarrow>
   zip_cycle (drop j s, s) us ! k = (s ! ((j + k) mod length s), us ! k)"
proof (induction us arbitrary: j k)
  case Nil
  then show ?case by simp
next
  case (Cons u us)
  have n: "0 < length s" using Cons.prems(1) by simp
  show ?case
  proof (cases "j < length s")
    case True
    then have sj: "Suc j \<le> length s" by simp
    show ?thesis
    proof (cases k)
      case 0
      with True show ?thesis by (simp add: cycle_next_drop)
    next
      case (Suc k')
      with Cons.prems have "k' < length us" by simp
      from Cons.IH[OF Cons.prems(1) sj this] Suc True show ?thesis
        by (simp add: cycle_next_drop)
    qed
  next
    case False
    with Cons.prems have j: "drop j s = []" and jn: "j = length s" by simp_all
    have s1: "Suc 0 \<le> length s" using n by arith
    show ?thesis
    proof (cases k)
      case 0
      then show ?thesis by (simp add: j jn cycle_next_wrap[OF Cons.prems(1)])
    next
      case (Suc k')
      with Cons.prems have "k' < length us" by simp
      have m: "Suc (length s + k') mod length s = Suc k' mod length s"
        using mod_add_self1[of "length s" "Suc k'"] by simp
      from Cons.IH[OF Cons.prems(1) s1 \<open>k' < length us\<close>] Suc n show ?thesis
        by (simp add: j jn cycle_next_wrap[OF Cons.prems(1)] m)
    qed
  qed
qed

lemma range1_nth: "i < n \<Longrightarrow> range1 n ! i = int i + 1"
  by (simp add: range1_def nth_map_upt del: upt_Suc)

lemma range1_length: "length (range1 n) = n"
  by (simp add: range1_def del: upt_Suc)

section \<open>Properties of the checkpoint and of the collecting loops\<close>

lemma fset_of_sorted_list: "fset_of_list (sorted_list_of_fset S) = S"
  by (rule fset_eqI) (simp add: fset_of_list.rep_eq)

lemma sorted_distinct_list_of_fset:
  "sorted (sorted_list_of_fset S) \<and> distinct (sorted_list_of_fset S)"
  by (simp add: sorted_list_of_fset.rep_eq)

lemma st0_simps:
  "seen_users st0 = {||}" "seen_file st0 = None" "data_dir st0 = []"
  "reddit_cycle st0 = ([(1, api)], [(1, api)])"
  by (simp_all add: st0_def init_state_def load_seen_def env1_def cycle_def enumerate1_def)

lemmas run_eval = py_index_def env1_def cycle_def enumerate1_def cycle_next_def st0_simps api_def
  Let_def save_seen_def sorted_list_of_fset.rep_eq

lemma run_single_alice:
  "run_single env1 [Item (Some ''alice'')] st0
     = (Some ApiException, st0\<lparr>seen_users := {|''alice''|}, seen_file := Some [''alice'']\<rparr>)"
  by (simp add: run_single_def run_eval)

lemma stream_loop_repeat:
  "a |\<notin>| seen \<Longrightarrow> 0 < n \<Longrightarrow> length fresh + n = B \<Longrightarrow>
   stream_loop B seen (replicate n (Item (Some a))) fresh = Inr (fresh @ replicate n a)"
proof (induction n arbitrary: fresh)
  case 0
  then show ?case by simp
next
  case (Suc n)
  show ?case
  proof (cases "n = 0")
    case True
    with Suc.prems show ?thesis by simp
  next
    case False
    then have "0 < n" by simp
    moreover have "length (fresh @ [a]) + n = B" using Suc.prems by simp
    ultimately have "stream_loop B seen (replicate n (Item (Some a))) (fresh @ [a])
        = Inr ((fresh @ [a]) @ replicate n a)"
      using Suc.prems(1) by (intro Suc.IH)
    with Suc.prems False show ?thesis by (simp add: replicate_app_Cons_same)
  qed
qed

lemma not_distinct_replicate: "Suc 0 < n \<Longrightarrow> \<not> distinct (replicate n x)"
proof -
  assume "Suc 0 < n"
  then obtain j where j: "n = Suc j" "0 < j"
    by (auto elim: Suc_lessE)
  then obtain m where "j = Suc m"
    by (auto dest: gr0_implies_Suc)
  with j show ?thesis by simp
qed

lemma collect_loop_repeat:
  assumes "0 < n" and "a |\<notin>| seen"
  shows "collect_loop n seen ([slot], [slot]) [replicate n (Item (Some a))] []
           = Some (Inr (replicate n a), ([], [slot]))"
proof -
  have "stream_loop n seen (replicate n (Item (Some a))) [] = Inr ([] @ replicate n a)"
    using assms by (intro stream_loop_repeat) simp_all
  then show ?thesis
    using assms(1) by (simp add: cycle_next_def)
qed

text \<open>What the collecting loop does guarantee: a list it releases has exactly \<open>B\<close> names,
  none of them in the seen set. A future that raised ends the loop over the results,
  wherever it stands in the order of completion. A job changes the state only when it
  returns rows, and then by marking its own name.\<close>

lemma stream_loop_released:
  "stream_loop B seen es fresh = Inr fresh1 \<Longrightarrow> length fresh < B \<Longrightarrow>
   length fresh1 \<le> B \<and> set fresh1 \<subseteq> set fresh \<union> {n. n |\<notin>| seen}"
proof (induction B seen es fresh rule: stream_loop.induct)
  case (1 B seen fresh)
  then show ?case by auto
next
  case (2 B seen es fresh)
  then show ?case by auto
next
  case (3 B seen ex es fresh)
  then show ?case by (auto split: if_splits)
next
  case (4 B seen author es fresh)
  show ?case
  proof (cases author)
    case None
    with 4 show ?thesis by simp
  next
    case (Some name)
    show ?thesis
    proof (cases "name |\<notin>| seen")
      case False
      with 4 Some show ?thesis by simp
    next
      case True
      show ?thesis
      proof (cases "B \<le> length (fresh @ [name])")
        case full: True
        with 4 Some True show ?thesis by auto
      next
        case notfull: False
        with 4 Some True
        have "length fresh1 \<le> B \<and> set fresh1 \<subseteq> set (fresh @ [name]) \<union> {n. n |\<notin>| seen}"
          by simp
        with True show ?thesis by auto
      qed
    qed
  qed
qed

lemma collect_loop_released:
  "collect_loop B seen cy feed fresh = Some (Inr fresh1, cy1) \<Longrightarrow> length fresh \<le> B \<Longrightarrow>
   set fresh \<subseteq> {n. n |\<notin>| seen} \<Longrightarrow>
   length fresh1 = B \<and> set fresh1 \<subseteq> {n. n |\<notin>| seen}"
proof (induction feed arbitrary: cy fresh)
  case Nil
  then show ?case by (auto split: if_splits option.splits)
next
  case (Cons s feed)
  show ?case
  proof (cases "length fresh < B")
    case False
    with Cons.prems show ?thesis by auto
  next
    case True
    with Cons.prems(1) obtain slot cy2 fresh2 where
      n: "cycle_next cy = Some (slot, cy2)" and
      s: "stream_loop B seen s fresh = Inr fresh2" and
      c: "collect_loop B seen cy2 feed fresh2 = Some (Inr fresh1, cy1)"
      by (auto split: option.splits sum.splits)
    from stream_loop_released[OF s True] Cons.prems(3)
    have "length fresh2 \<le> B" "set fresh2 \<subseteq> {n. n |\<notin>| seen}" by auto
    with Cons.IH[OF c] show ?thesis by simp
  qed
qed

lemma collect_results_raises:
  "Inl ex \<in> set futs \<Longrightarrow> \<exists>ex1. collect_results futs all_users all_comments = Inl ex1"
proof (induction futs arbitrary: all_users all_comments)
  case Nil
  then show ?case by simp
next
  case (Cons fut futs)
  then show ?case by (cases fut) (auto split: option.splits)
qed

text \<open>The two ways the fetch of a job can raise. When the listing of the comments
  raises, the job returns \<^verbatim>\<open>None\<close>; when the listing arrives and the read of the profile
  raises, the job raises. The state is unchanged in both.\<close>

lemma fetch_user_job_listing_raises:
  assumes "py_index (reddit_clients e) (idx - 1) = Inr client"
    and "comments_new (client uname) = None"
  shows "fetch_user_job e st (idx, uname) = (Inr None, st)"
  using assms by (simp add: fetch_user_job_def)

lemma fetch_user_job_profile_raises:
  assumes "py_index (reddit_clients e) (idx - 1) = Inr client"
    and "comments_new (client uname) = Some listing"
    and "about (client uname) = None"
  shows "fetch_user_job e st (idx, uname) = (Inl ApiException, st)"
  using assms by (simp add: fetch_user_job_def)

lemma fetch_user_job_marks_on_success:
  "fetch_user_job e st job = (res, st1) \<Longrightarrow> st1 \<noteq> st \<Longrightarrow>
   (\<exists>r. res = Inr (Some r)) \<and> seen_users st1 = finsert (snd job) (seen_users st)"
  by (cases job) (auto simp: fetch_user_job_def Let_def save_seen_def split: sum.splits option.splits)

section \<open>Properties of the merge\<close>

text \<open>\<^verbatim>\<open>drop_duplicates\<close> on a column that exists: the rows kept have pairwise different
  values in the column, every value of the input is kept once, a second pass changes
  nothing, and the input written twice gives the rows of the input written once.\<close>

lemma drop_dups_keys_cong:
  "set keys = set keys1 \<Longrightarrow> drop_dups col rs keys = drop_dups col rs keys1"
proof (induction rs arbitrary: keys keys1)
  case Nil
  show ?case by simp
next
  case (Cons r rs)
  have "set (cell_of r col # keys) = set (cell_of r col # keys1)"
    using Cons.prems by simp
  from Cons.IH[OF this] Cons.IH[OF Cons.prems] Cons.prems show ?case by simp
qed

lemma drop_dups_fresh:
  "r \<in> set (drop_dups col rs keys) \<Longrightarrow> r \<in> set rs \<and> cell_of r col \<notin> set keys"
proof (induction rs arbitrary: keys)
  case Nil
  then show ?case by simp
next
  case (Cons x rs)
  then show ?case by (fastforce split: if_splits)
qed

lemma drop_dups_distinct: "distinct (map (\<lambda>r. cell_of r col) (drop_dups col rs keys))"
proof (induction rs arbitrary: keys)
  case Nil
  show ?case by simp
next
  case (Cons x rs)
  have "cell_of x col \<notin> (\<lambda>r. cell_of r col) ` set (drop_dups col rs (cell_of x col # keys))"
  proof
    assume "cell_of x col \<in> (\<lambda>r. cell_of r col) ` set (drop_dups col rs (cell_of x col # keys))"
    then obtain r where "r \<in> set (drop_dups col rs (cell_of x col # keys))"
      and "cell_of r col = cell_of x col" by auto
    with drop_dups_fresh[of r col rs "cell_of x col # keys"] show False by simp
  qed
  with Cons.IH show ?case by simp
qed

lemma drop_dups_covers:
  "r \<in> set rs \<Longrightarrow>
   cell_of r col \<in> set keys \<union> (\<lambda>r. cell_of r col) ` set (drop_dups col rs keys)"
proof (induction rs arbitrary: keys)
  case Nil
  then show ?case by simp
next
  case (Cons x rs)
  show ?case
  proof (cases "r = x")
    case True
    then show ?thesis by simp
  next
    case False
    with Cons.prems have "r \<in> set rs" by simp
    from Cons.IH[OF this, of keys] Cons.IH[OF this, of "cell_of x col # keys"]
    show ?thesis by auto
  qed
qed

lemma drop_dups_idem: "drop_dups col (drop_dups col rs keys) keys = drop_dups col rs keys"
proof (induction rs arbitrary: keys)
  case Nil
  show ?case by simp
next
  case (Cons x rs)
  show ?case
  proof (cases "cell_of x col \<in> set keys")
    case True
    with Cons.IH show ?thesis by simp
  next
    case False
    with Cons.IH[of "cell_of x col # keys"] show ?thesis by simp
  qed
qed

lemma drop_dups_all_met:
  "\<forall>r \<in> set rs. cell_of r col \<in> set keys \<Longrightarrow> drop_dups col rs keys = []"
  by (induction rs) auto

lemma drop_dups_append:
  "drop_dups col (xs @ ys) keys
     = drop_dups col xs keys
       @ drop_dups col ys (map (\<lambda>r. cell_of r col) (drop_dups col xs keys) @ keys)"
proof (induction xs arbitrary: keys)
  case Nil
  show ?case by simp
next
  case (Cons x xs)
  show ?case
  proof (cases "cell_of x col \<in> set keys")
    case True
    with Cons.IH show ?thesis by simp
  next
    case False
    have "drop_dups col ys (map (\<lambda>r. cell_of r col) (drop_dups col xs (cell_of x col # keys))
              @ cell_of x col # keys)
        = drop_dups col ys (cell_of x col # map (\<lambda>r. cell_of r col) (drop_dups col xs (cell_of x col # keys))
              @ keys)"
      by (rule drop_dups_keys_cong) auto
    with False Cons.IH[of "cell_of x col # keys"] show ?thesis by simp
  qed
qed

lemma drop_dups_twice: "drop_dups col (rs @ rs) [] = drop_dups col rs []"
proof -
  have "\<forall>r \<in> set rs. cell_of r col \<in> set (map (\<lambda>r. cell_of r col) (drop_dups col rs []) @ [])"
    using drop_dups_covers[of _ rs col "[]"] by auto
  then have "drop_dups col rs (map (\<lambda>r. cell_of r col) (drop_dups col rs []) @ []) = []"
    by (rule drop_dups_all_met)
  then show ?thesis
    by (simp only: drop_dups_append append_Nil2)
qed

section \<open>Two batches, step by step\<close>

lemma fetch_alice: "fetch_user_job env1 st (1, ''alice'') = (Inl ApiException, st)"
  by (simp add: fetch_user_job_def py_index_def env1_def api_def)

lemma fetch_bob:
  "fetch_user_job env1 st (1, ''bob'')
     = (Inr (Some (bob_user_row, bob_comment_rows)),
        st\<lparr>seen_users := finsert ''bob'' (seen_users st),
           seen_file := Some (sorted_list_of_fset (finsert ''bob'' (seen_users st)))\<rparr>)"
  by (simp add: fetch_user_job_def py_index_def env1_def api_def prof_def py_int_def
      MAX_COMMENTS_def save_seen_def bob_user_row_def bob_comment_rows_def)

lemma collect_alice_bob:
  "collect_loop 2 {||} ([(1, api)], [(1, api)]) [[Item (Some ''alice''), Item (Some ''bob'')]] []
     = Some (Inr [''alice'', ''bob''], ([], [(1, api)]))"
  by (simp add: cycle_next_def)

lemma jobs_alice_bob: "build_jobs (Suc 0) [''alice'', ''bob''] = [(1, ''alice''), (1, ''bob'')]"
  by (simp add: build_jobs_def range1_def cycle_def cycle_next_def)

lemma run_jobs_alice_bob:
  "run_jobs env1 [(1, ''alice''), (1, ''bob'')] st
     = ([Inl ApiException, Inr (Some (bob_user_row, bob_comment_rows))],
        st\<lparr>seen_users := finsert ''bob'' (seen_users st),
           seen_file := Some (sorted_list_of_fset (finsert ''bob'' (seen_users st)))\<rparr>)"
  by (simp add: fetch_alice fetch_bob)

lemma clients_env1: "length (reddit_clients env1) = Suc 0" "reddit_clients env1 \<noteq> []"
  by (simp_all add: env1_def)

lemma run_batch_alice_bob:
  assumes "order = [0, 1] \<or> order = [1, 0]"
  shows "run_batch env1 2 [[Item (Some ''alice''), Item (Some ''bob'')]] order st0
     = Some (Some ApiException,
             st0\<lparr>reddit_cycle := ([], [(1, api)]), seen_users := {|''bob''|},
                seen_file := Some [''bob'']\<rparr>)"
proof -
  have c: "collect_results (as_completed order
             [Inl ApiException, Inr (Some (bob_user_row, bob_comment_rows))]) [] [] = Inl ApiException"
    using assms by (auto simp: as_completed_def)
  have s: "sorted_list_of_fset {|''bob''|} = [''bob'']"
    by (simp add: sorted_list_of_fset.rep_eq)
  show ?thesis
    unfolding run_batch_def
    apply (simp only: st0_simps collect_alice_bob option.case prod.case sum.case Let_def
        clients_env1 jobs_alice_bob run_jobs_alice_bob c if_False)
    apply (simp add: st0_simps s)
    done
qed

lemma str_of_nat_2: "str_of_nat 2 = ''2''"
  by code_simp

lemma comment_row_keys:
  "map fst (comment_row ft pipe username c)
     = [''username'', ''comment_id'', ''subreddit'', ''created_utc'', ''score'', ''body_clean'',
        ''language'', ''sentiment'']"
  by (simp add: comment_row_def Let_def)

lemma frame_columns_comments:
  "''id'' \<notin> set (frame_columns (process_user_comments ft pipe username raw))"
  by (cases raw) (simp_all add: frame_columns_def process_user_comments_map comment_row_keys)

lemma frame_columns_bob_user: "''id'' \<notin> set (frame_columns [bob_user_row])"
  by (simp add: frame_columns_def bob_user_row_def)

lemma concat_columns_no_id:
  "(\<forall>df \<in> set dfs. ''id'' \<notin> set (frame_columns df)) \<Longrightarrow> ''id'' \<notin> set (concat_columns dfs)"
  by (auto simp: concat_columns_def)

lemma collect_bob:
  "collect_loop (Suc 0) {||} ([(1, api)], [(1, api)]) [[Item (Some ''bob'')]] []
     = Some (Inr [''bob''], ([], [(1, api)]))"
  by (simp add: cycle_next_def)

lemma jobs_bob: "build_jobs (Suc 0) [''bob''] = [(1, ''bob'')]"
  by (simp add: build_jobs_def range1_def cycle_def cycle_next_def)

lemma run_jobs_bob:
  "run_jobs env1 [(1, ''bob'')] st
     = ([Inr (Some (bob_user_row, bob_comment_rows))],
        st\<lparr>seen_users := finsert ''bob'' (seen_users st),
           seen_file := Some (sorted_list_of_fset (finsert ''bob'' (seen_users st)))\<rparr>)"
  by (simp add: fetch_bob)

lemma length_bob_comment_rows: "length bob_comment_rows = 2"
  by (simp add: bob_comment_rows_def process_user_comments_map)

lemma run_batch_bob:
  "run_batch env1 (Suc 0) [[Item (Some ''bob'')]] [0] st0
     = Some (None,
             st0\<lparr>reddit_cycle := ([], [(1, api)]), seen_users := {|''bob''|},
                seen_file := Some [''bob''], data_dir := bob_dir\<rparr>)"
proof -
  have c: "collect_results (as_completed [0]
             [Inr (Some (bob_user_row, bob_comment_rows))]) [] []
           = Inr ([bob_user_row], bob_comment_rows)"
    by (simp add: as_completed_def)
  have s: "sorted_list_of_fset {|''bob''|} = [''bob'']"
    by (simp add: sorted_list_of_fset.rep_eq)
  show ?thesis
    unfolding run_batch_def
    apply (simp only: st0_simps collect_bob option.case prod.case sum.case Let_def
        clients_env1 jobs_bob run_jobs_bob c if_False length_bob_comment_rows str_of_nat_2)
    apply (simp add: st0_simps s save_parquet_def env1_def bob_dir_def)
    done
qed

lemma merge_bob_dir: "mergin_all_files_deduplicated bob_dir = Inl (KeyError ''id'')"
proof -
  have f: "filter (\<lambda>f. suffix ''.parquet'' (fst f) \<and> fst f \<noteq> ''all_comments_merged.parquet'') bob_dir
            = bob_dir"
    by (simp add: bob_dir_def suffix_to_prefix)
  have "''id'' \<notin> set (concat_columns (map snd bob_dir))"
    by (rule concat_columns_no_id)
       (simp add: bob_dir_def frame_columns_bob_user bob_comment_rows_def frame_columns_comments)
  then have "drop_duplicates ''id'' (concat_columns (map snd bob_dir)) (concat (map snd bob_dir))
               = Inl (KeyError ''id'')"
    by (simp add: drop_duplicates_def)
  moreover have "bob_dir \<noteq> []" by (simp add: bob_dir_def)
  ultimately show ?thesis
    unfolding mergin_all_files_deduplicated_def by (simp only: f Let_def if_False sum.case)
qed

section \<open>The claims\<close>

text \<open>
  \<^bold>\<open>C1\<close>: the released list is to hold \<^verbatim>\<open>BATCH_SIZE\<close> names that are pairwise distinct. The
  collector tests a name against the seen set only, not against the names already
  collected: with batch size 2 and comments by \<^verbatim>\<open>alice\<close>, \<^verbatim>\<open>alice\<close>, \<^verbatim>\<open>bob\<close> it releases
  \<^verbatim>\<open>alice\<close> twice, and with the batch size of the source and as many comments by \<^verbatim>\<open>alice\<close>
  the released list is \<^verbatim>\<open>alice\<close> repeated. On the sequence \<^verbatim>\<open>alice\<close>, \<^verbatim>\<open>bob\<close>, \<^verbatim>\<open>bob\<close>, \<^verbatim>\<open>carol\<close>
  of the specification the batch is full after \<^verbatim>\<open>bob\<close> and the list is \<^verbatim>\<open>alice\<close>, \<^verbatim>\<open>bob\<close>.
\<close>

theorem batch_releases_repeated_author:
  "map_option fst (collect_loop 2 (seen_users st0) (reddit_cycle st0)
      [[Item (Some ''alice''), Item (Some ''alice''), Item (Some ''bob'')]] [])
     = Some (Inr [''alice'', ''alice'']) \<and>
   map_option fst (collect_loop BATCH_SIZE (seen_users st0) (reddit_cycle st0)
      [replicate BATCH_SIZE (Item (Some ''alice''))] [])
     = Some (Inr (replicate BATCH_SIZE ''alice'')) \<and>
   \<not> distinct (replicate BATCH_SIZE ''alice'') \<and>
   map_option fst (collect_loop 2 (seen_users st0) (reddit_cycle st0)
      [[Item (Some ''alice''), Item (Some ''bob''), Item (Some ''bob''), Item (Some ''carol'')]] [])
     = Some (Inr [''alice'', ''bob''])"
proof -
  have b: "0 < BATCH_SIZE" "Suc 0 < BATCH_SIZE"
    by (simp_all add: BATCH_SIZE_def)
  have g1: "map_option fst (collect_loop 2 (seen_users st0) (reddit_cycle st0)
      [[Item (Some ''alice''), Item (Some ''alice''), Item (Some ''bob'')]] [])
     = Some (Inr [''alice'', ''alice''])"
    by (simp add: st0_simps cycle_next_def)
  have "collect_loop BATCH_SIZE {||} ([(1, api)], [(1, api)])
          [replicate BATCH_SIZE (Item (Some ''alice''))] []
        = Some (Inr (replicate BATCH_SIZE ''alice''), ([], [(1, api)]))"
    using b(1) by (rule collect_loop_repeat) simp
  then have g2: "map_option fst (collect_loop BATCH_SIZE (seen_users st0) (reddit_cycle st0)
      [replicate BATCH_SIZE (Item (Some ''alice''))] [])
     = Some (Inr (replicate BATCH_SIZE ''alice''))"
    by (simp only: st0_simps option.map fst_conv)
  have g3: "\<not> distinct (replicate BATCH_SIZE ''alice'')"
    using b(2) by (rule not_distinct_replicate)
  have g4: "map_option fst (collect_loop 2 (seen_users st0) (reddit_cycle st0)
      [[Item (Some ''alice''), Item (Some ''bob''), Item (Some ''bob''), Item (Some ''carol'')]] [])
     = Some (Inr [''alice'', ''bob''])"
    by (simp add: st0_simps cycle_next_def)
  show ?thesis
    by (intro conjI) (rule g1, rule g2, rule g3, rule g4)
qed

text \<open>
  \<^bold>\<open>C2\<close>: the seen set is to change only when a fetch has completed. In single mode
  it changes before: with an empty checkpoint and one comment by \<^verbatim>\<open>alice\<close>, whose profile
  cannot be read, \<^verbatim>\<open>run_single\<close> ends with the exception, no file is written to the data
  directory, and yet \<^verbatim>\<open>alice\<close> is in the seen set and in the checkpoint file. A later
  comment by \<^verbatim>\<open>alice\<close> is then skipped.
\<close>

theorem single_marks_before_fetch:
  "fst (run_single env1 [Item (Some ''alice'')] st0) = Some ApiException \<and>
   seen_users (snd (run_single env1 [Item (Some ''alice'')] st0)) = {|''alice''|} \<and>
   seen_file (snd (run_single env1 [Item (Some ''alice'')] st0)) = Some [''alice''] \<and>
   data_dir (snd (run_single env1 [Item (Some ''alice'')] st0)) = [] \<and>
   run_single env1 [Item (Some ''alice'')] (snd (run_single env1 [Item (Some ''alice'')] st0))
     = (None, snd (run_single env1 [Item (Some ''alice'')] st0))"
  by (simp add: run_single_alice st0_simps) (simp add: run_single_def run_eval)

text \<open>
  \<^bold>\<open>C3\<close> (strict round robin): with \<open>N\<close> credentials, \<open>N > 0\<close>, the job list built
  from the released names has one job for each name, and the job of name \<open>k\<close> (counted
  from 0) carries the credential index \<open>(k mod N) + 1\<close>. The list is built before any job
  runs, so it does not depend on what the jobs return.
\<close>

theorem round_robin:
  assumes "0 < N" and "k < length fresh"
  shows "length (build_jobs N fresh) = length fresh \<and>
         build_jobs N fresh ! k = (int (k mod N) + 1, fresh ! k)"
proof -
  have ne: "range1 N \<noteq> []" using assms(1) range1_length[of N] by auto
  have "zip_cycle (drop 0 (range1 N), range1 N) fresh ! k
          = (range1 N ! ((0 + k) mod length (range1 N)), fresh ! k)"
    using ne assms(2) by (intro zip_cycle_nth) simp_all
  moreover have "length (zip_cycle (drop 0 (range1 N), range1 N) fresh) = length fresh"
    using ne by (intro zip_cycle_length) simp_all
  ultimately show ?thesis
    using assms(1) by (simp add: build_jobs_def cycle_def range1_length range1_nth)
qed

theorem round_robin_witness:
  "build_jobs 3 [''a'', ''b'', ''c'', ''d'', ''e''] ! 4 = (2, ''e'')"
proof -
  have "(0::nat) < 3" and "4 < length [''a'', ''b'', ''c'', ''d'', ''e'']" by simp_all
  from round_robin[OF this] show ?thesis by simp
qed

text \<open>
  \<^bold>\<open>C4\<close>: a job whose fetch raises is to return the failure result \<^verbatim>\<open>None\<close>, with the name
  not marked and the checkpoint file not rewritten. The fetch of a job is the listing of
  the user's comments and the read of the user's profile, and only the first is inside
  the \<^verbatim>\<open>try\<close> block. For \<^verbatim>\<open>alice\<close>, whose comments arrive and whose profile cannot be read,
  \<^verbatim>\<open>fetch_user_job\<close> does not return \<^verbatim>\<open>None\<close>: it raises. The state is the one it started
  from, so \<^verbatim>\<open>alice\<close> is neither in the seen set nor in the checkpoint file.
\<close>

theorem fetch_profile_raises_escapes:
  "comments_new (api ''alice'') = Some [c_love] \<and>
   about (api ''alice'') = None \<and>
   fst (fetch_user_job env1 st0 (1, ''alice'')) = Inl ApiException \<and>
   fst (fetch_user_job env1 st0 (1, ''alice'')) \<noteq> Inr None \<and>
   snd (fetch_user_job env1 st0 (1, ''alice'')) = st0 \<and>
   ''alice'' |\<notin>| seen_users (snd (fetch_user_job env1 st0 (1, ''alice''))) \<and>
   seen_file (snd (fetch_user_job env1 st0 (1, ''alice''))) = None"
  by (simp add: fetch_alice api_def st0_simps)

text \<open>
  \<^bold>\<open>C5\<close> (failure isolation in the pool): a job that raises is not to keep the results of
  the other jobs of the batch from being collected. In \<^verbatim>\<open>fetch_user_job\<close> only the fetch of
  the comments is inside the \<^verbatim>\<open>try\<close> block. With the jobs for \<^verbatim>\<open>alice\<close>, whose profile cannot
  be read, and for \<^verbatim>\<open>bob\<close>, whose job succeeds, \<^verbatim>\<open>run_batch\<close> ends with the exception of the
  first job in either order of completion: nothing is written to the data directory,
  while \<^verbatim>\<open>bob\<close> is in the checkpoint file. \<^verbatim>\<open>alice\<close> is not in the checkpoint file.
\<close>

theorem raising_job_aborts_batch:
  "map_option fst (run_batch env1 2 [[Item (Some ''alice''), Item (Some ''bob'')]] [0, 1] st0)
     = Some (Some ApiException) \<and>
   map_option (data_dir \<circ> snd) (run_batch env1 2 [[Item (Some ''alice''), Item (Some ''bob'')]] [0, 1] st0)
     = Some [] \<and>
   map_option (seen_file \<circ> snd) (run_batch env1 2 [[Item (Some ''alice''), Item (Some ''bob'')]] [0, 1] st0)
     = Some (Some [''bob'']) \<and>
   map_option fst (run_batch env1 2 [[Item (Some ''alice''), Item (Some ''bob'')]] [1, 0] st0)
     = Some (Some ApiException) \<and>
   map_option (data_dir \<circ> snd) (run_batch env1 2 [[Item (Some ''alice''), Item (Some ''bob'')]] [1, 0] st0)
     = Some [] \<and>
   map_option (seen_file \<circ> snd) (run_batch env1 2 [[Item (Some ''alice''), Item (Some ''bob'')]] [1, 0] st0)
     = Some (Some [''bob''])"
proof -
  have a: "run_batch env1 2 [[Item (Some ''alice''), Item (Some ''bob'')]] [0, 1] st0
     = Some (Some ApiException,
             st0\<lparr>reddit_cycle := ([], [(1, api)]), seen_users := {|''bob''|},
                seen_file := Some [''bob'']\<rparr>)"
    by (rule run_batch_alice_bob) simp
  have b: "run_batch env1 2 [[Item (Some ''alice''), Item (Some ''bob'')]] [1, 0] st0
     = Some (Some ApiException,
             st0\<lparr>reddit_cycle := ([], [(1, api)]), seen_users := {|''bob''|},
                seen_file := Some [''bob'']\<rparr>)"
    by (rule run_batch_alice_bob) simp
  show ?thesis
    unfolding a b by (simp add: st0_simps)
qed

text \<open>
  \<^bold>\<open>C6\<close> (language gate): in every row that \<^verbatim>\<open>process_user_comments\<close> produces, the
  sentiment is present (not \<^verbatim>\<open>None\<close>) exactly when the detected language is \<^verbatim>\<open>en\<close> and the
  cleaned text is not empty. A comment with no text, or whose cleaned text is empty, gets
  the language \<^verbatim>\<open>unknown\<close> and no sentiment. A sentiment that is present is the dictionary
  built by \<^verbatim>\<open>classify_sentiment\<close> from the cleaned text: its keys are the lower-cased
  labels of all the entries the pipeline returned, each with the score of its entry (the
  last one of a label that occurs twice).
\<close>

theorem language_gate:
  assumes "i < length raw"
    and "r = process_user_comments ft pipe username raw ! i"
    and "cleaned = clean_text (case body (raw ! i) of None \<Rightarrow> [] | Some b \<Rightarrow> b)"
  shows "((map_of r ''sentiment'' \<noteq> Some NoneV)
            = (map_of r ''language'' = Some (StrV ''en'') \<and> map_of r ''body_clean'' \<noteq> Some (StrV []))) \<and>
         (body (raw ! i) = None \<or> body (raw ! i) = Some [] \<or> cleaned = [] \<longrightarrow>
            map_of r ''language'' = Some (StrV ''unknown'') \<and> map_of r ''sentiment'' = Some NoneV) \<and>
         (map_of r ''sentiment'' \<noteq> Some NoneV \<longrightarrow>
            map_of r ''sentiment'' = Some (DictV (classify_sentiment pipe cleaned))) \<and>
         (\<forall>scores rest. pipe (take 512 cleaned) = scores # rest \<longrightarrow>
            fst ` set (classify_sentiment pipe cleaned) = (\<lambda>e. lower (fst e)) ` set scores \<and>
            map_of (classify_sentiment pipe cleaned)
              = map_of (rev (map (\<lambda>e. (lower (fst e), snd e)) scores)))"
proof -
  have r: "r = comment_row ft pipe username (raw ! i)"
    using assms(1,2) by (simp add: process_user_comments_map)
  have g1: "(map_of r ''sentiment'' \<noteq> Some NoneV)
            = (map_of r ''language'' = Some (StrV ''en'') \<and> map_of r ''body_clean'' \<noteq> Some (StrV []))"
    unfolding r by (rule comment_row_gate)
  have e: "body (raw ! i) = None \<or> body (raw ! i) = Some [] \<or> cleaned = [] \<Longrightarrow> cleaned = []"
    unfolding assms(3) by (auto simp: clean_text_Nil)
  have g2: "body (raw ! i) = None \<or> body (raw ! i) = Some [] \<or> cleaned = [] \<longrightarrow>
            map_of r ''language'' = Some (StrV ''unknown'') \<and> map_of r ''sentiment'' = Some NoneV"
  proof
    assume "body (raw ! i) = None \<or> body (raw ! i) = Some [] \<or> cleaned = []"
    then have "cleaned = []" by (rule e)
    then have "clean_text (case body (raw ! i) of None \<Rightarrow> [] | Some b \<Rightarrow> b) = []"
      by (simp only: assms(3))
    then show "map_of r ''language'' = Some (StrV ''unknown'') \<and> map_of r ''sentiment'' = Some NoneV"
      unfolding r by (rule comment_row_empty)
  qed
  have g3: "map_of r ''sentiment'' \<noteq> Some NoneV \<longrightarrow>
            map_of r ''sentiment'' = Some (DictV (classify_sentiment pipe cleaned))"
  proof
    assume "map_of r ''sentiment'' \<noteq> Some NoneV"
    then show "map_of r ''sentiment'' = Some (DictV (classify_sentiment pipe cleaned))"
      unfolding r assms(3) by (rule comment_row_sentiment)
  qed
  have g4: "\<forall>scores rest. pipe (take 512 cleaned) = scores # rest \<longrightarrow>
            fst ` set (classify_sentiment pipe cleaned) = (\<lambda>e. lower (fst e)) ` set scores \<and>
            map_of (classify_sentiment pipe cleaned)
              = map_of (rev (map (\<lambda>e. (lower (fst e), snd e)) scores))"
  proof (intro allI impI)
    fix scores rest
    assume p: "pipe (take 512 cleaned) = scores # rest"
    show "fst ` set (classify_sentiment pipe cleaned) = (\<lambda>e. lower (fst e)) ` set scores \<and>
          map_of (classify_sentiment pipe cleaned)
            = map_of (rev (map (\<lambda>e. (lower (fst e), snd e)) scores))"
      using classify_sentiment_keys[of pipe cleaned scores rest, OF p]
        classify_sentiment_map_of[of pipe cleaned scores rest, OF p]
      by (rule conjI)
  qed
  show ?thesis
    by (intro conjI) (rule g1, rule g2, rule g3, rule g4)
qed

theorem language_gate_witness:
  "map_of (process_user_comments ft_en pipe3 ''alice'' [c_love, c_empty] ! 0) ''sentiment''
     = Some (DictV [(''negative'', 1 / 10), (''neutral'', 1 / 5), (''positive'', 7 / 10)]) \<and>
   map_of (process_user_comments ft_en pipe3 ''alice'' [c_love, c_empty] ! 1) ''language''
     = Some (StrV ''unknown'') \<and>
   map_of (process_user_comments ft_en pipe3 ''alice'' [c_love, c_empty] ! 1) ''sentiment''
     = Some NoneV"
proof -
  let ?raw = "[c_love, c_empty]"
  let ?out = "process_user_comments ft_en pipe3 ''alice'' ?raw"
  have c0: "clean_text (case body (?raw ! 0) of None \<Rightarrow> [] | Some b \<Rightarrow> b) = ''I love this''"
    by (simp add: c_love_def text_eval)
  have c1: "''I love this'' = clean_text (case body (?raw ! 0) of None \<Rightarrow> [] | Some b \<Rightarrow> b)"
    by (simp only: c0)
  have l0: "map_of (?out ! 0) ''language'' = Some (StrV ''en'')"
    by (simp add: process_user_comments_def comment_row_def ft_en_def c_love_def detect_lang_def
        FT_THRESHOLD_def text_eval lower_def Let_def)
  have b0: "map_of (?out ! 0) ''body_clean'' \<noteq> Some (StrV [])"
    by (simp add: process_user_comments_def comment_row_def c_love_def text_eval Let_def)
  have g0: "map_of (?out ! 0) ''sentiment'' = Some (DictV (classify_sentiment pipe3 ''I love this''))"
    using language_gate[of 0 ?raw "?out ! 0" ft_en pipe3 "''alice''" "''I love this''", OF _ refl c1] l0 b0
    by simp
  have g1: "map_of (?out ! 1) ''language'' = Some (StrV ''unknown'') \<and>
            map_of (?out ! 1) ''sentiment'' = Some NoneV"
    using language_gate[of 1 ?raw "?out ! 1" ft_en pipe3 "''alice''" _, OF _ refl refl]
    by (simp add: c_empty_def)
  from g0 g1 show ?thesis by (simp add: classify_sentiment_love)
qed

text \<open>
  \<^bold>\<open>C7\<close>: the merge is to drop duplicate rows by the comment id that the collector
  writes. The collector writes it under the key \<^verbatim>\<open>comment_id\<close>; the script drops duplicates
  by the column \<^verbatim>\<open>id\<close>. On the data directory that a successful batch leaves, and on a
  single file of comment rows that holds the same comment twice, the script raises
  \<^verbatim>\<open>KeyError\<close> and writes no merged file.
\<close>

theorem merge_raises_on_collector_rows:
  "map_option fst (run_batch env1 1 [[Item (Some ''bob'')]] [0] st0) = Some None \<and>
   map_option (map fst \<circ> data_dir \<circ> snd) (run_batch env1 1 [[Item (Some ''bob'')]] [0] st0)
     = Some [''users_20250101T000000.parquet'', ''batch_2_20250101T000000.parquet''] \<and>
   map_option (mergin_all_files_deduplicated \<circ> data_dir \<circ> snd)
      (run_batch env1 1 [[Item (Some ''bob'')]] [0] st0) = Some (Inl (KeyError ''id'')) \<and>
   mergin_all_files_deduplicated
      [(''bob_20250101T000000.parquet'', process_user_comments ft_en pipe3 ''bob'' [c_love, c_love])]
     = Inl (KeyError ''id'')"
proof -
  have r: "run_batch env1 1 [[Item (Some ''bob'')]] [0] st0
     = Some (None,
             st0\<lparr>reddit_cycle := ([], [(1, api)]), seen_users := {|''bob''|},
                seen_file := Some [''bob''], data_dir := bob_dir\<rparr>)"
    using run_batch_bob by simp
  have g1: "map_option fst (run_batch env1 1 [[Item (Some ''bob'')]] [0] st0) = Some None"
    unfolding r by simp
  have g2: "map_option (map fst \<circ> data_dir \<circ> snd) (run_batch env1 1 [[Item (Some ''bob'')]] [0] st0)
     = Some [''users_20250101T000000.parquet'', ''batch_2_20250101T000000.parquet'']"
    unfolding r by (simp add: bob_dir_def)
  have g3: "map_option (mergin_all_files_deduplicated \<circ> data_dir \<circ> snd)
      (run_batch env1 1 [[Item (Some ''bob'')]] [0] st0) = Some (Inl (KeyError ''id''))"
    unfolding r by (simp add: merge_bob_dir)
  have "''id'' \<notin> set (concat_columns [process_user_comments ft_en pipe3 ''bob'' [c_love, c_love]])"
    by (rule concat_columns_no_id) (simp add: frame_columns_comments)
  then have g4: "mergin_all_files_deduplicated
      [(''bob_20250101T000000.parquet'', process_user_comments ft_en pipe3 ''bob'' [c_love, c_love])]
     = Inl (KeyError ''id'')"
    by (simp add: mergin_all_files_deduplicated_def drop_duplicates_def suffix_to_prefix)
  show ?thesis
    by (intro conjI) (rule g1, rule g2, rule g3, rule g4)
qed

text \<open>
  \<^bold>\<open>C8\<close> (checkpoint round trip): with no checkpoint file the set of seen users starts
  empty. \<^verbatim>\<open>save_seen\<close> leaves the set as it is and writes the whole set to the file as a
  sorted list without repetition; marking a name (adding it, then \<^verbatim>\<open>save_seen\<close>) writes the
  sorted list of the enlarged set. Loading the file that \<^verbatim>\<open>save_seen\<close> wrote gives back the
  set, for every set of names.
\<close>

theorem checkpoint_round_trip:
  "load_seen None = {||} \<and>
   seen_users (init_state e None dir) = {||} \<and>
   seen_users (save_seen st) = seen_users st \<and>
   seen_file (save_seen st) = Some (sorted_list_of_fset (seen_users st)) \<and>
   sorted (sorted_list_of_fset (seen_users st)) \<and>
   distinct (sorted_list_of_fset (seen_users st)) \<and>
   set (sorted_list_of_fset (seen_users st)) = fset (seen_users st) \<and>
   seen_file (save_seen (st\<lparr>seen_users := finsert uname (seen_users st)\<rparr>))
     = Some (sorted_list_of_fset (finsert uname (seen_users st))) \<and>
   load_seen (seen_file (save_seen (st\<lparr>seen_users := S\<rparr>))) = S"
  by (simp add: load_seen_def save_seen_def init_state_def fset_of_sorted_list
      sorted_distinct_list_of_fset)

text \<open>
  \<^bold>\<open>C9\<close>: for every user name and every list of comments, \<^verbatim>\<open>process_user_comments\<close>
  returns one row for each comment, in the order of the input: row \<open>i\<close> is the row built
  from comment \<open>i\<close>, it carries that comment's id, and its \<^verbatim>\<open>username\<close> is the given name.
\<close>

theorem process_user_comments_one_row_each:
  "length (process_user_comments ft pipe username raw) = length raw \<and>
   (\<forall>i < length raw.
      process_user_comments ft pipe username raw ! i = comment_row ft pipe username (raw ! i) \<and>
      map_of (process_user_comments ft pipe username raw ! i) ''comment_id''
        = Some (StrV (comment_id (raw ! i))) \<and>
      map_of (process_user_comments ft pipe username raw ! i) ''username'' = Some (StrV username))"
  by (simp add: process_user_comments_map comment_row_username comment_row_comment_id)

theorem process_user_comments_one_row_each_witness:
  "length (process_user_comments ft_en pipe3 ''alice'' [c_love, c_empty]) = 2 \<and>
   map_of (process_user_comments ft_en pipe3 ''alice'' [c_love, c_empty] ! 1) ''comment_id''
     = Some (StrV ''k2'') \<and>
   map_of (process_user_comments ft_en pipe3 ''alice'' [c_love, c_empty] ! 1) ''username''
     = Some (StrV ''alice'')"
proof -
  let ?raw = "[c_love, c_empty]"
  let ?out = "process_user_comments ft_en pipe3 ''alice'' ?raw"
  have i: "1 < length ?raw" by simp
  have "length ?out = length ?raw \<and>
        map_of (?out ! 1) ''comment_id'' = Some (StrV (comment_id (?raw ! 1))) \<and>
        map_of (?out ! 1) ''username'' = Some (StrV ''alice'')"
    using process_user_comments_one_row_each[of ft_en pipe3 "''alice''" ?raw] i
    by blast
  then show ?thesis by (simp add: c_empty_def)
qed

text \<open>
  \<^bold>\<open>C10\<close>: \<^verbatim>\<open>clean_text\<close> is idempotent. Removing the URLs, replacing the newlines by
  spaces and trimming a second time leaves the result of the first pass unchanged, for
  every input string.
\<close>

theorem clean_text_idempotent: "clean_text (clean_text t) = clean_text t"
proof -
  let ?w = "clean_text t"
  have 1: "url_sub ?w = ?w"
    by (rule url_sub_no_url) (rule no_url_clean_text)
  have "CHR 0x0A \<notin> set ?w"
    unfolding clean_text_def using set_strip no_newline_replace by blast
  then have 2: "replace_newlines ?w = ?w" by (rule replace_newlines_id)
  have 3: "strip ?w = ?w"
    unfolding clean_text_def by (rule strip_idem)
  show ?thesis
    by (subst (1) clean_text_def) (simp only: 1 2 3)
qed


end
